theory Spec2Isabelle
  imports Main
begin

section \<open>The SAT model converter (sat\_model\_converter.cpp)\<close>

text \<open>
  The converter keeps a ledger of elimination entries and replays it backwards over a
  partial model. The embedding follows \<^verbatim>\<open>src/sat/sat_model_converter.cpp\<close>
  function by function. The header \<^verbatim>\<open>sat_types.h\<close> (variables, literals, the
  three-valued model), the clause classes and the assertion macros are not part of the
  sources at hand; their models are marked where they are introduced.

  Names follow the source. \<^verbatim>\<open>operator()\<close> is \<open>model_converter_apply\<close> and
  \<^verbatim>\<open>operator=\<close> is \<open>assign\<close>; the three \<^verbatim>\<open>insert\<close> overloads are
  \<open>insert_clause\<close>, \<open>insert_binary\<close> and \<open>insert_wrapper\<close>.
\<close>

subsection \<open>Variables, literals, models\<close>

text \<open>
  \<^verbatim>\<open>bool_var\<close> is an unsigned index. The code only compares and copies
  variables, it never does arithmetic on them, so \<open>nat\<close> is exact.
\<close>

type_synonym bool_var = nat

text \<open>
  Modelled from the spec: the three truth values of a model (section 3, "one of
  true, false, undefined"); the type \<^verbatim>\<open>lbool\<close> is declared outside the sources.
\<close>

datatype lbool = l_false | l_undef | l_true

text \<open>
  Modelled from the spec: a literal is a (variable, polarity) pair, \<open>sign\<close> being true
  for the negative polarity; one reserved sentinel \<open>null_literal\<close>, distinct from every
  real literal, ends a clause (section 3). The class \<^verbatim>\<open>literal\<close> is declared outside
  the sources, in \<^verbatim>\<open>sat_types.h\<close>. There \<^verbatim>\<open>var()\<close> of the sentinel is the
  reserved index \<^verbatim>\<open>null_bool_var\<close>, which is \<^verbatim>\<open>UINT_MAX >> 1\<close>, and its sign is
  positive. Every function of the converter but \<^verbatim>\<open>check_invariant\<close> reads
  \<open>var\<close> and \<open>sign\<close> only after the test against \<open>null_literal\<close>.
\<close>

definition null_bool_var :: bool_var where
  "null_bool_var = 2147483647"

datatype literal = Lit (var: bool_var) (sign: bool) | null_literal
  where "var null_literal = null_bool_var" | "sign null_literal = False"

text \<open>
  Modelled from the spec: a model maps every variable index to a truth value
  (section 3); \<^verbatim>\<open>m[v] = x\<close> is the function update \<open>m(v := x)\<close>.
\<close>

type_synonym model = "bool_var \<Rightarrow> lbool"

fun lneg :: "lbool \<Rightarrow> lbool" where
  "lneg l_true = l_false"
| "lneg l_false = l_true"
| "lneg l_undef = l_undef"

text \<open>
  Modelled from the spec: literal evaluation (section 6): true when the variable's value
  matches the literal's polarity, false when it matches the opposite one, undefined when
  the variable is unassigned. \<^verbatim>\<open>value_at\<close> is declared outside the sources.
\<close>

definition value_at :: "literal \<Rightarrow> model \<Rightarrow> lbool" where
  "value_at l m = (let r = m (var l) in if sign l then lneg r else r)"

subsection \<open>Entries and the ledger\<close>

datatype kind = ELIM_VAR | BLOCK_LIT

record entry =
  m_kind :: kind
  m_var :: bool_var
  m_clauses :: "literal list"

type_synonym ledger = "entry list"

text \<open>
  \<^verbatim>\<open>mk(k, v)\<close> pushes a fresh entry with no clauses and returns a reference to it;
  the reference is modelled by the position of the entry in the ledger.
\<close>

definition mk :: "kind \<Rightarrow> bool_var \<Rightarrow> ledger \<Rightarrow> nat \<times> ledger" where
  "mk k v es = (length es, es @ [\<lparr>m_kind = k, m_var = v, m_clauses = []\<rparr>])"

subsection \<open>Replay: \<^verbatim>\<open>model_converter::operator()\<close>\<close>

text \<open>
  The \<^verbatim>\<open>for\<close> loop over the literals of one entry, lines 50 to 76. The loop state
  is the flag \<open>sat\<close>, the flag \<open>var_sign\<close> and the model; \<open>x\<close> is \<^verbatim>\<open>it->var()\<close>.
  The \<^verbatim>\<open>break\<close> at an unsatisfied clause end returns at once. Note that
  \<open>var_sign\<close> is declared before the loop and is not reset at a clause end.
\<close>

fun replay_clauses ::
  "bool_var \<Rightarrow> literal list \<Rightarrow> bool \<Rightarrow> bool \<Rightarrow> model \<Rightarrow> bool \<times> bool \<times> model" where
  "replay_clauses x [] sat var_sign m = (sat, var_sign, m)"
| "replay_clauses x (null_literal # ls) sat var_sign m =
     (if \<not> sat then (sat, var_sign, m(x := (if var_sign then l_false else l_true)))
      else replay_clauses x ls False var_sign m)"
| "replay_clauses x (Lit v s # ls) sat var_sign m =
     (if sat then replay_clauses x ls sat var_sign m
      else
        let var_sign' = (if v = x then s else var_sign) in
        if value_at (Lit v s) m = l_true then replay_clauses x ls True var_sign' m
        else if v \<noteq> x \<and> m v = l_undef
          then replay_clauses x ls True var_sign' (m(v := (if s then l_false else l_true)))
          else replay_clauses x ls sat var_sign' m)"

definition apply_entry :: "entry \<Rightarrow> model \<Rightarrow> model" where
  "apply_entry e m = snd (snd (replay_clauses (m_var e) (m_clauses e) False False m))"

text \<open>
  The outer loop walks from \<^verbatim>\<open>m_entries.end()\<close> down to
  \<^verbatim>\<open>m_entries.begin()\<close>: the last entry is replayed first.
  \<open>foldr f [e1, e2, e3] m = f e1 (f e2 (f e3 m))\<close>. This is the release build: the
  \<^verbatim>\<open>SASSERT\<close> of line 47 and the \<^verbatim>\<open>DEBUG_CODE\<close> block of lines 77 to 91
  are compiled out; they are the predicates \<open>elim_var_undef\<close> and \<open>self_check\<close> below.
\<close>

definition model_converter_apply :: "ledger \<Rightarrow> model \<Rightarrow> model" where
  "model_converter_apply es m = foldr apply_entry es m"

text \<open>The assertion of line 47, on the model the entry is replayed on.\<close>

definition elim_var_undef :: "entry \<Rightarrow> model \<Rightarrow> bool" where
  "elim_var_undef e m = (m_kind e \<noteq> ELIM_VAR \<or> m (m_var e) = l_undef)"

text \<open>
  The \<^verbatim>\<open>DEBUG_CODE\<close> loop of lines 77 to 91: true when every
  \<^verbatim>\<open>SASSERT(sat)\<close> at a clause end passes.
\<close>

fun debug_clauses :: "literal list \<Rightarrow> bool \<Rightarrow> model \<Rightarrow> bool" where
  "debug_clauses [] sat m = True"
| "debug_clauses (null_literal # ls) sat m = (sat \<and> debug_clauses ls False m)"
| "debug_clauses (Lit v s # ls) sat m =
     (if sat then debug_clauses ls sat m
      else if value_at (Lit v s) m = l_true then debug_clauses ls True m
      else debug_clauses ls sat m)"

definition self_check :: "entry \<Rightarrow> model \<Rightarrow> bool" where
  "self_check e m = debug_clauses (m_clauses e) False m"

text \<open>
  Modelled from the spec: \<^verbatim>\<open>SASSERT\<close> and \<^verbatim>\<open>DEBUG_CODE\<close> are macros declared
  outside the sources; by section 7 they are checked in debug builds only, where a
  failure is a fatal fault, and a release build proceeds. \<open>self_checks es m\<close> says that
  the self-check passes after each entry of a replay of \<open>es\<close> on \<open>m\<close>.
\<close>

fun self_checks :: "ledger \<Rightarrow> model \<Rightarrow> bool" where
  "self_checks [] m = True"
| "self_checks (e # es) m =
     (self_checks es m \<and> self_check e (apply_entry e (model_converter_apply es m)))"

datatype error = Assertion_violation

text \<open>The debug build of the replay: the same loop with both checks switched on.\<close>

fun apply_debug :: "ledger \<Rightarrow> model \<Rightarrow> error + model" where
  "apply_debug [] m = Inr m"
| "apply_debug (e # es) m =
     (case apply_debug es m of
        Inl err \<Rightarrow> Inl err
      | Inr m1 \<Rightarrow>
          if \<not> elim_var_undef e m1 then Inl Assertion_violation
          else let m2 = apply_entry e m1 in
            if \<not> self_check e m2 then Inl Assertion_violation else Inr m2)"

subsection \<open>\<^verbatim>\<open>model_converter::check_model\<close>\<close>

text \<open>
  The inner loop of lines 109 to 126 with the flags \<open>sat\<close> and \<open>ok\<close>; the
  \<^verbatim>\<open>TRACE\<close> output is not modelled. The loop does not stop at the first failure.
\<close>

fun check_clauses :: "literal list \<Rightarrow> bool \<Rightarrow> bool \<Rightarrow> model \<Rightarrow> bool" where
  "check_clauses [] sat ok m = ok"
| "check_clauses (null_literal # ls) sat ok m =
     check_clauses ls False (if \<not> sat then False else ok) m"
| "check_clauses (Lit v s # ls) sat ok m =
     (if sat then check_clauses ls sat ok m
      else if value_at (Lit v s) m = l_true then check_clauses ls True ok m
      else check_clauses ls sat ok m)"

definition check_model :: "ledger \<Rightarrow> model \<Rightarrow> bool" where
  "check_model es m = fold (\<lambda>e ok. check_clauses (m_clauses e) False ok m) (rev es) True"

subsection \<open>Construction: the three \<^verbatim>\<open>insert\<close> overloads\<close>

text \<open>
  Modelled from the spec: a clause and a clause wrapper are views with a size and indexed
  literal access (section 6); both are literal lists here. The classes are declared
  outside the sources.
\<close>

type_synonym clause = "literal list"

definition contains_var :: "clause \<Rightarrow> bool_var \<Rightarrow> bool" where
  "contains_var c v = (\<exists>l \<in> set c. l \<noteq> null_literal \<and> var l = v)"

text \<open>Lines 139 to 146: push every literal of the clause, then the sentinel.\<close>

definition insert_clause :: "entry \<Rightarrow> clause \<Rightarrow> entry" where
  "insert_clause e c =
     (let e1 = fold (\<lambda>l e'. e'\<lparr>m_clauses := m_clauses e' @ [l]\<rparr>) c e
      in e1\<lparr>m_clauses := m_clauses e1 @ [null_literal]\<rparr>)"

text \<open>Lines 148 to 156.\<close>

definition insert_binary :: "entry \<Rightarrow> literal \<Rightarrow> literal \<Rightarrow> entry" where
  "insert_binary e l1 l2 =
     (let e1 = e\<lparr>m_clauses := m_clauses e @ [l1]\<rparr>;
          e2 = e1\<lparr>m_clauses := m_clauses e1 @ [l2]\<rparr>
      in e2\<lparr>m_clauses := m_clauses e2 @ [null_literal]\<rparr>)"

text \<open>Lines 158 to 167: the loop \<^verbatim>\<open>for (i = 0; i < sz; ++i)\<close> over the wrapper.\<close>

definition insert_wrapper :: "entry \<Rightarrow> clause \<Rightarrow> entry" where
  "insert_wrapper e c =
     (let sz = length c;
          e1 = fold (\<lambda>i e'. e'\<lparr>m_clauses := m_clauses e' @ [c ! i]\<rparr>) [0..<sz] e
      in e1\<lparr>m_clauses := m_clauses e1 @ [null_literal]\<rparr>)"

text \<open>
  The entry argument is a reference into \<^verbatim>\<open>m_entries\<close>
  (\<^verbatim>\<open>SASSERT(m_entries.begin() <= &e)\<close>, \<^verbatim>\<open>SASSERT(&e < m_entries.end())\<close>):
  the position \<open>i\<close> returned by \<open>mk\<close>. The ledger-level operations update that entry in
  place.
\<close>

definition attach_clause :: "nat \<Rightarrow> clause \<Rightarrow> ledger \<Rightarrow> ledger" where
  "attach_clause i c es = es[i := insert_clause (es ! i) c]"

definition attach_binary :: "nat \<Rightarrow> literal \<Rightarrow> literal \<Rightarrow> ledger \<Rightarrow> ledger" where
  "attach_binary i l1 l2 es = es[i := insert_binary (es ! i) l1 l2]"

definition attach_wrapper :: "nat \<Rightarrow> clause \<Rightarrow> ledger \<Rightarrow> ledger" where
  "attach_wrapper i c es = es[i := insert_wrapper (es ! i) c]"

subsection \<open>\<^verbatim>\<open>model_converter::check_invariant\<close>\<close>

text \<open>
  The two assertions on a literal of a later entry, lines 183 and 184. The first one is
  not guarded: on the sentinel it compares \<^verbatim>\<open>null_bool_var\<close> with the variable.
\<close>

definition lit_asserts :: "nat \<Rightarrow> bool_var \<Rightarrow> literal \<Rightarrow> bool" where
  "lit_asserts num_vars x l =
     (var l \<noteq> x \<and> (l = null_literal \<or> var l < num_vars))"

text \<open>The loop over \<^verbatim>\<open>it2\<close>, lines 179 to 186, for an \<^verbatim>\<open>ELIM_VAR\<close> entry of variable \<open>x\<close>.\<close>

fun later_asserts :: "nat \<Rightarrow> bool_var \<Rightarrow> entry list \<Rightarrow> bool" where
  "later_asserts num_vars x [] = True"
| "later_asserts num_vars x (e2 # es) =
     (m_var e2 \<noteq> x \<and> list_all (lit_asserts num_vars x) (m_clauses e2)
      \<and> later_asserts num_vars x es)"

text \<open>The loop over \<^verbatim>\<open>it\<close>, lines 174 to 188: true when every assertion passes.\<close>

fun invariant_asserts :: "nat \<Rightarrow> entry list \<Rightarrow> bool" where
  "invariant_asserts num_vars [] = True"
| "invariant_asserts num_vars (e # es) =
     (m_var e < num_vars
      \<and> (if m_kind e = ELIM_VAR then later_asserts num_vars (m_var e) es else True)
      \<and> invariant_asserts num_vars es)"

text \<open>
  The function itself: its only \<^verbatim>\<open>return\<close> is \<^verbatim>\<open>return true\<close>. In a debug
  build (\<open>debug = True\<close>) a failed assertion is a fatal fault; in a release build the
  assertions are compiled out.
\<close>

definition check_invariant :: "bool \<Rightarrow> nat \<Rightarrow> ledger \<Rightarrow> error + bool" where
  "check_invariant debug num_vars es =
     (if debug \<and> \<not> invariant_asserts num_vars es then Inl Assertion_violation
      else Inr True)"

subsection \<open>\<^verbatim>\<open>model_converter::max_var\<close>\<close>

text \<open>The inner loop of lines 234 to 240 over the literals of one entry.\<close>

fun max_var_lits :: "literal list \<Rightarrow> nat \<Rightarrow> nat" where
  "max_var_lits [] result = result"
| "max_var_lits (l # ls) result =
     max_var_lits ls
       (if l \<noteq> null_literal then (if var l > result then var l else result) else result)"

definition max_var :: "nat \<Rightarrow> ledger \<Rightarrow> nat" where
  "max_var mn es = fold (\<lambda>e result. max_var_lits (m_clauses e) result) es mn"

subsection \<open>\<^verbatim>\<open>reset\<close>, \<^verbatim>\<open>copy\<close> and \<^verbatim>\<open>operator=\<close>\<close>

text \<open>
  \<^verbatim>\<open>copy\<close> takes its source by reference, and the source may be the converter
  itself. Converters therefore live in a store, from addresses to ledgers, and
  \<^verbatim>\<open>this\<close> and \<^verbatim>\<open>src\<close> are addresses.
\<close>

type_synonym addr = nat
type_synonym store = "addr \<Rightarrow> ledger"

definition reset :: "addr \<Rightarrow> store \<Rightarrow> store" where
  "reset this h = h(this := [])"

text \<open>
  Modelled from the spec: \<^verbatim>\<open>vector::append\<close> is declared outside the sources; it
  pushes the elements of the other vector at the end of this one. The other vector is
  read when \<open>append\<close> runs, that is after \<open>reset\<close>. When both are the same vector,
  \<open>copy\<close> reaches it on the empty vector only, where nothing is pushed.
\<close>

definition append_entries :: "addr \<Rightarrow> addr \<Rightarrow> store \<Rightarrow> store" where
  "append_entries this other h = h(this := h this @ h other)"

definition copy :: "addr \<Rightarrow> addr \<Rightarrow> store \<Rightarrow> store" where
  "copy this src h = append_entries this src (reset this h)"

definition assign :: "addr \<Rightarrow> addr \<Rightarrow> store \<Rightarrow> store" where
  "assign this other h = copy this other h"

subsection \<open>The clauses of a justification\<close>

text \<open>
  The reading of a flattened justification as a sequence of clauses, each ended by the
  sentinel (section 3 of the specification). Literals after the last sentinel do not form
  a clause. \<open>acc\<close> holds the literals of the clause being read, last first.
\<close>

fun clauses_from :: "literal list \<Rightarrow> literal list \<Rightarrow> literal list list" where
  "clauses_from acc [] = []"
| "clauses_from acc (null_literal # ls) = rev acc # clauses_from [] ls"
| "clauses_from acc (Lit v s # ls) = clauses_from (Lit v s # acc) ls"

definition clauses_of :: "literal list \<Rightarrow> literal list list" where
  "clauses_of ls = clauses_from [] ls"

definition clause_true :: "model \<Rightarrow> literal list \<Rightarrow> bool" where
  "clause_true m c = (\<exists>l \<in> set c. value_at l m = l_true)"

subsection \<open>Predicates used in the statements\<close>


text \<open>A clause has a true literal over a variable other than \<open>x\<close>.\<close>

definition other_true :: "bool_var \<Rightarrow> model \<Rightarrow> literal list \<Rightarrow> bool" where
  "other_true x m c = (\<exists>l \<in> set c. var l \<noteq> x \<and> value_at l m = l_true)"

text \<open>
  The two ways the scan of an entry of variable \<open>x\<close> can end, told on the resulting model
  \<open>m'\<close> and the clauses \<open>cs\<close> it had to go through. Either no clause end was reached
  unsatisfied: \<open>x\<close> has the value it had in \<open>m\<close> and every clause is true. Or the scan
  stopped at a clause \<open>c\<close>: every literal of \<open>c\<close> over another variable is false, and if
  \<open>x\<close> occurs in \<open>c\<close>, it was given the value that makes one of its occurrences true.
\<close>

definition scan_kept :: "bool_var \<Rightarrow> model \<Rightarrow> model \<Rightarrow> literal list list \<Rightarrow> bool" where
  "scan_kept x m m' cs = (m' x = m x \<and> (\<forall>c \<in> set cs. clause_true m' c))"

definition scan_stopped :: "bool_var \<Rightarrow> model \<Rightarrow> literal list list \<Rightarrow> bool" where
  "scan_stopped x m' cs =
     (\<exists>c \<in> set cs.
        (\<forall>l \<in> set c. var l \<noteq> x \<longrightarrow> value_at l m' = l_false) \<and>
        ((\<exists>l \<in> set c. var l = x) \<longrightarrow>
           (\<exists>s. Lit x s \<in> set c \<and> m' x = (if s then l_false else l_true))))"




subsection \<open>The scenarios of the specification\<close>

text \<open>
  Scenario A of the specification: one \<^verbatim>\<open>ELIM_VAR\<close> entry for variable 3 whose only
  clause is variable 1 positive, variable 3 negative.
\<close>

definition ledger_A :: ledger where
  "ledger_A = [\<lparr>m_kind = ELIM_VAR, m_var = 3, m_clauses = [Lit 1 False, Lit 3 True, null_literal]\<rparr>]"

text \<open>The model of scenario A: variable 1 false, variable 3 undefined, the others true.\<close>

definition model_A :: model where
  "model_A = (\<lambda>_. l_true)(1 := l_false, 3 := l_undef)"

text \<open>
  A \<^verbatim>\<open>BLOCK_LIT\<close> entry for variable 3 whose clause holds both variables positively,
  and a total model in which variable 3 is true and variable 1 is false.
\<close>

definition ledger_N :: ledger where
  "ledger_N = [\<lparr>m_kind = BLOCK_LIT, m_var = 3, m_clauses = [Lit 1 False, Lit 3 False, null_literal]\<rparr>]"

definition model_N :: model where
  "model_N = (\<lambda>_. l_true)(1 := l_false)"

text \<open>Scenario B: the ledger of scenario A on a model in which variable 1 is true.\<close>

definition model_B :: model where
  "model_B = (\<lambda>_. l_true)(3 := l_undef)"





text \<open>
  Scenario C: an \<^verbatim>\<open>ELIM_VAR\<close> entry for variable 5, then an entry for variable 3 whose
  clause mentions variable 5.
\<close>

definition ledger_C :: ledger where
  "ledger_C =
     [\<lparr>m_kind = ELIM_VAR, m_var = 5, m_clauses = [Lit 5 False, Lit 1 False, null_literal]\<rparr>,
      \<lparr>m_kind = ELIM_VAR, m_var = 3, m_clauses = [Lit 3 False, Lit 5 True, null_literal]\<rparr>]"

text \<open>Two \<^verbatim>\<open>BLOCK_LIT\<close> entries for the same variable.\<close>

definition ledger_S :: ledger where
  "ledger_S =
     [\<lparr>m_kind = BLOCK_LIT, m_var = 3, m_clauses = [Lit 3 False, null_literal]\<rparr>,
      \<lparr>m_kind = BLOCK_LIT, m_var = 3, m_clauses = [Lit 3 True, null_literal]\<rparr>]"

section \<open>Properties\<close>

subsection \<open>The maximal variable\<close>

lemma max_var_lits_ge: "result \<le> max_var_lits ls result"
proof (induction ls arbitrary: result)
  case Nil
  show ?case by simp
next
  case (Cons l ls)
  have "result \<le> (if l \<noteq> null_literal then (if var l > result then var l else result) else result)"
    by simp
  also have "\<dots> \<le> max_var_lits ls (if l \<noteq> null_literal then (if var l > result then var l else result) else result)"
    by (rule Cons.IH)
  finally show ?case by simp
qed


lemma max_var_lits_mem:
  "l \<in> set ls \<Longrightarrow> l \<noteq> null_literal \<Longrightarrow> var l \<le> max_var_lits ls result"
proof (induction ls arbitrary: result)
  case Nil
  then show ?case by simp
next
  case (Cons a ls)
  show ?case
  proof (cases "l = a")
    case True
    have "var l \<le> (if a \<noteq> null_literal then (if var a > result then var a else result) else result)"
      using True Cons.prems(2) by simp
    also have "\<dots> \<le> max_var_lits ls (if a \<noteq> null_literal then (if var a > result then var a else result) else result)"
      by (rule max_var_lits_ge)
    finally show ?thesis by simp
  next
    case False
    then have "l \<in> set ls" using Cons.prems(1) by simp
    then show ?thesis using Cons.IH Cons.prems(2) by simp
  qed
qed

lemma max_var_ge_floor: "mn \<le> max_var mn es"
proof (induction es arbitrary: mn)
  case Nil
  show ?case by (simp add: max_var_def)
next
  case (Cons e es)
  have "mn \<le> max_var_lits (m_clauses e) mn" by (rule max_var_lits_ge)
  also have "\<dots> \<le> max_var (max_var_lits (m_clauses e) mn) es" by (rule Cons.IH)
  finally show ?case by (simp add: max_var_def)
qed

lemma max_var_ge_lit:
  "e \<in> set es \<Longrightarrow> l \<in> set (m_clauses e) \<Longrightarrow> l \<noteq> null_literal \<Longrightarrow> var l \<le> max_var mn es"
proof (induction es arbitrary: mn)
  case Nil
  then show ?case by simp
next
  case (Cons a es)
  have step: "max_var mn (a # es) = max_var (max_var_lits (m_clauses a) mn) es"
    by (simp add: max_var_def)
  show ?case
  proof (cases "e = a")
    case True
    have "var l \<le> max_var_lits (m_clauses a) mn"
      using max_var_lits_mem Cons.prems(2,3) True by simp
    also have "\<dots> \<le> max_var (max_var_lits (m_clauses a) mn) es" by (rule max_var_ge_floor)
    finally show ?thesis using step by simp
  next
    case False
    then have "e \<in> set es" using Cons.prems(1) by simp
    then show ?thesis using Cons.IH Cons.prems(2,3) step by simp
  qed
qed

text \<open>
  Claim C7. For every ledger and every floor value, \<open>max_var\<close> is at least the floor
  and at least the variable of every literal (the sentinel carries none) of every
  entry's justification.
\<close>

theorem max_var_bound:
  "mn \<le> max_var mn es \<and>
   (\<forall>e \<in> set es. \<forall>l \<in> set (m_clauses e). l \<noteq> null_literal \<longrightarrow> var l \<le> max_var mn es)"
  using max_var_ge_floor max_var_ge_lit by blast

theorem max_var_bound_witness:
  "(2::nat) \<le> max_var 2 ledger_A \<and> var (Lit 3 True) \<le> max_var 2 ledger_A \<and>
   max_var 2 ledger_A = 3"
  using max_var_bound [of 2 ledger_A] by (simp add: ledger_A_def max_var_def)

subsection \<open>Frame of the replay\<close>

lemma replay_frame:
  "v \<noteq> x \<Longrightarrow> m v \<noteq> l_undef \<Longrightarrow> snd (snd (replay_clauses x ls sat vs m)) v = m v"
  by (induction x ls sat vs m rule: replay_clauses.induct) (auto simp: Let_def)

lemma replay_defined:
  "m v \<noteq> l_undef \<Longrightarrow> snd (snd (replay_clauses x ls sat vs m)) v \<noteq> l_undef"
  by (induction x ls sat vs m rule: replay_clauses.induct) (auto simp: Let_def)

lemma apply_entry_frame:
  "v \<noteq> m_var e \<Longrightarrow> m v \<noteq> l_undef \<Longrightarrow> apply_entry e m v = m v"
  by (simp add: apply_entry_def replay_frame)

lemma apply_entry_defined: "m v \<noteq> l_undef \<Longrightarrow> apply_entry e m v \<noteq> l_undef"
  by (simp add: apply_entry_def replay_defined)

lemma apply_Cons:
  "model_converter_apply (e # es) m = apply_entry e (model_converter_apply es m)"
  by (simp add: model_converter_apply_def)

lemma apply_Nil: "model_converter_apply [] m = m"
  by (simp add: model_converter_apply_def)

lemma apply_append:
  "model_converter_apply (es1 @ es2) m = model_converter_apply es1 (model_converter_apply es2 m)"
  by (simp add: model_converter_apply_def)

lemma apply_defined: "m v \<noteq> l_undef \<Longrightarrow> model_converter_apply es m v \<noteq> l_undef"
  by (induction es) (simp_all add: apply_Nil apply_Cons apply_entry_defined)

lemma apply_frame:
  "v \<notin> m_var ` set es \<Longrightarrow> m v \<noteq> l_undef \<Longrightarrow> model_converter_apply es m v = m v"
proof (induction es)
  case Nil
  show ?case by (simp add: apply_Nil)
next
  case (Cons e es)
  have ne: "v \<noteq> m_var e" and notin: "v \<notin> m_var ` set es"
    using Cons.prems(1) by auto
  have same: "model_converter_apply es m v = m v"
    using Cons.IH notin Cons.prems(2) by simp
  then have "model_converter_apply es m v \<noteq> l_undef"
    using Cons.prems(2) by simp
  then have "apply_entry e (model_converter_apply es m) v = model_converter_apply es m v"
    using ne by (rule apply_entry_frame [rotated])
  then show ?case using same by (simp add: apply_Cons)
qed

text \<open>
  Claim C9. The replay never changes a variable that is defined before the call and is
  not the variable of an entry. The second part is the step behind it: while the entry of
  variable \<open>x\<close> is scanned, from any loop state, a variable other than \<open>x\<close> that holds
  a defined value keeps it, so such a variable is only assigned while it is undefined.
\<close>

theorem apply_keeps_defined_non_entry:
  "(v \<notin> m_var ` set es \<and> m v \<noteq> l_undef \<longrightarrow> model_converter_apply es m v = m v) \<and>
   (v \<noteq> x \<and> m v \<noteq> l_undef \<longrightarrow> snd (snd (replay_clauses x ls sat vs m)) v = m v)"
  using apply_frame replay_frame by blast

theorem apply_keeps_defined_non_entry_witness:
  "1 \<notin> m_var ` set ledger_A \<and> model_A 1 \<noteq> l_undef \<and>
   model_converter_apply ledger_A model_A 1 = l_false \<and>
   model_converter_apply ledger_A model_A 3 = l_false \<and>
   snd (snd (replay_clauses 3 (m_clauses (hd ledger_A)) False False model_A)) 1 = l_false"
  using apply_keeps_defined_non_entry [of 1 ledger_A model_A 3 "m_clauses (hd ledger_A)" False False]
  by (simp add: ledger_A_def model_A_def model_converter_apply_def apply_entry_def value_at_def)

subsection \<open>The verifier\<close>

lemma check_clauses_False: "check_clauses ls sat False m = False"
  by (induction ls sat "False" m rule: check_clauses.induct) auto

lemma check_clauses_char:
  "sat = clause_true m acc \<Longrightarrow>
   check_clauses ls sat ok m = (ok \<and> (\<forall>c \<in> set (clauses_from acc ls). clause_true m c))"
proof (induction ls arbitrary: acc sat ok)
  case Nil
  show ?case by simp
next
  case (Cons l ls)
  show ?case
  proof (cases l)
    case null_literal
    have "check_clauses ls False (if \<not> sat then False else ok) m =
      ((if \<not> sat then False else ok) \<and> (\<forall>c \<in> set (clauses_from [] ls). clause_true m c))"
      by (rule Cons.IH) (simp add: clause_true_def)
    then show ?thesis using null_literal Cons.prems by (auto simp: clause_true_def)
  next
    case (Lit v s)
    let ?sat' = "sat \<or> value_at (Lit v s) m = l_true"
    have "check_clauses ls ?sat' ok m =
      (ok \<and> (\<forall>c \<in> set (clauses_from (Lit v s # acc) ls). clause_true m c))"
      by (rule Cons.IH) (use Cons.prems in \<open>auto simp: clause_true_def\<close>)
    then show ?thesis using Lit by auto
  qed
qed

lemma check_entry_char:
  "check_clauses (m_clauses e) False ok m =
   (ok \<and> (\<forall>c \<in> set (clauses_of (m_clauses e)). clause_true m c))"
  unfolding clauses_of_def by (rule check_clauses_char) (simp add: clause_true_def)

lemma fold_check_char:
  "fold (\<lambda>e ok. check_clauses (m_clauses e) False ok m) es ok =
   (ok \<and> (\<forall>e \<in> set es. \<forall>c \<in> set (clauses_of (m_clauses e)). clause_true m c))"
  by (induction es arbitrary: ok) (auto simp: check_entry_char)

lemma check_model_char:
  "check_model es m = (\<forall>e \<in> set es. \<forall>c \<in> set (clauses_of (m_clauses e)). clause_true m c)"
  by (simp add: check_model_def fold_check_char)

text \<open>
  Claim C4. \<open>check_model\<close> is true exactly when every clause of every entry has a
  literal that evaluates to true under the model. The method is \<^verbatim>\<open>const\<close> and takes
  the model by \<^verbatim>\<open>const\<close> reference: it computes a boolean from the ledger and the
  model and writes to neither, which is why the embedding returns the boolean alone.
\<close>

theorem check_model_iff:
  "check_model es m \<longleftrightarrow>
   (\<forall>e \<in> set es. \<forall>c \<in> set (clauses_of (m_clauses e)). \<exists>l \<in> set c. value_at l m = l_true)"
  using check_model_char [of es m] by (simp add: clause_true_def)

theorem check_model_iff_witness:
  "check_model ledger_A (model_A(3 := l_false)) \<and>
   (\<exists>l \<in> set [Lit 1 False, Lit 3 True]. value_at l (model_A(3 := l_false)) = l_true) \<and>
   \<not> check_model ledger_A (model_A(3 := l_true))"
  using check_model_iff [of ledger_A "model_A(3 := l_false)"]
    check_model_iff [of ledger_A "model_A(3 := l_true)"]
  by (simp add: ledger_A_def model_A_def clauses_of_def value_at_def)

subsection \<open>Replay on a model that already satisfies the ledger\<close>

lemma replay_noop:
  "\<forall>l \<in> set ls. l \<noteq> null_literal \<longrightarrow> m (var l) \<noteq> l_undef \<Longrightarrow>
   check_clauses ls sat True m \<Longrightarrow>
   snd (snd (replay_clauses x ls sat vs m)) = m"
  by (induction x ls sat vs m rule: replay_clauses.induct)
    (auto simp: Let_def check_clauses_False)

lemma apply_entry_noop:
  "\<forall>l \<in> set (m_clauses e). l \<noteq> null_literal \<longrightarrow> m (var l) \<noteq> l_undef \<Longrightarrow>
   check_clauses (m_clauses e) False True m \<Longrightarrow> apply_entry e m = m"
  by (simp add: apply_entry_def replay_noop)

lemma apply_noop:
  "\<forall>e \<in> set es. \<forall>l \<in> set (m_clauses e). l \<noteq> null_literal \<longrightarrow> m (var l) \<noteq> l_undef \<Longrightarrow>
   check_model es m \<Longrightarrow> model_converter_apply es m = m"
proof (induction es)
  case Nil
  show ?case by (simp add: apply_Nil)
next
  case (Cons e es)
  have cm: "check_model es m" and ce: "check_clauses (m_clauses e) False True m"
    using Cons.prems(2) by (simp_all add: check_model_char check_entry_char)
  have "model_converter_apply es m = m"
    using Cons.IH Cons.prems(1) cm by simp
  moreover have "apply_entry e m = m"
    using Cons.prems(1) ce by (simp add: apply_entry_noop)
  ultimately show ?case by (simp add: apply_Cons)
qed

subsection \<open>The end of an unsatisfied clause\<close>

lemma replay_sat_stays:
  "null_literal \<notin> set c \<Longrightarrow> replay_clauses x c True vs m = (True, vs, m)"
proof (induction c)
  case Nil
  show ?case by simp
next
  case (Cons a c)
  then show ?case by (cases a) simp_all
qed

lemma replay_append:
  "null_literal \<notin> set c \<Longrightarrow>
   replay_clauses x (c @ rest) sat vs m =
     (case replay_clauses x c sat vs m of (sat', vs', m') \<Rightarrow> replay_clauses x rest sat' vs' m')"
proof (induction c arbitrary: sat vs m)
  case Nil
  show ?case by simp
next
  case (Cons a c)
  then show ?case by (cases a) (simp_all add: Let_def)
qed

lemma replay_unsat_scan:
  "null_literal \<notin> set c \<Longrightarrow> replay_clauses x c False vs m = (False, vs', m') \<Longrightarrow>
   m' = m \<and> (\<forall>l \<in> set c. value_at l m \<noteq> l_true) \<and>
   vs' = (if filter (\<lambda>l. var l = x) c = [] then vs else sign (last (filter (\<lambda>l. var l = x) c)))"
proof (induction c arbitrary: vs)
  case Nil
  then show ?case by simp
next
  case (Cons a c)
  show ?case
  proof (cases a)
    case null_literal
    then show ?thesis using Cons.prems(1) by simp
  next
    case (Lit v s)
    have nn: "null_literal \<notin> set c" using Cons.prems(1) by simp
    have notsat: "value_at (Lit v s) m \<noteq> l_true \<and> \<not> (v \<noteq> x \<and> m v = l_undef)"
    proof (rule ccontr)
      assume "\<not> ?thesis"
      then have "\<exists>vs2 m2. replay_clauses x (a # c) False vs m = replay_clauses x c True vs2 m2"
        using Lit by (auto simp: Let_def)
      then have "fst (replay_clauses x (a # c) False vs m) = True"
        using replay_sat_stays [OF nn] by auto
      then show False using Cons.prems(2) by simp
    qed
    then have step: "replay_clauses x (a # c) False vs m =
        replay_clauses x c False (if v = x then s else vs) m"
      using Lit by (auto simp: Let_def)
    have ih: "m' = m \<and> (\<forall>l \<in> set c. value_at l m \<noteq> l_true) \<and>
      vs' = (if filter (\<lambda>l. var l = x) c = [] then (if v = x then s else vs)
             else sign (last (filter (\<lambda>l. var l = x) c)))"
      using Cons.IH [OF nn] Cons.prems(2) step by simp
    then show ?thesis using Lit notsat by auto
  qed
qed

text \<open>
  Claim C5. A clause starts with \<open>sat\<close> false. Let \<open>c\<close> be the literals of a clause and
  let the scan of \<open>c\<close> end with \<open>sat\<close> still false, with polarity flag \<open>vs'\<close>. Then at
  the sentinel the variable \<open>x\<close> of the entry is set to false if \<open>vs'\<close> is negative and
  to true otherwise, nothing else has changed, and the result does not depend on the
  literals \<open>rest\<close> after the sentinel: the scan has stopped. If \<open>x\<close> occurs in \<open>c\<close>,
  \<open>vs'\<close> is the sign of its last occurrence. In scenario A the replay sets variable 3
  to false and changes nothing else.
\<close>

theorem replay_unsat_clause_end:
  "(null_literal \<notin> set c \<and> replay_clauses x c False vs m = (False, vs', m') \<longrightarrow>
      replay_clauses x (c @ null_literal # rest) False vs m =
        (False, vs', m(x := (if vs' then l_false else l_true))) \<and>
      (filter (\<lambda>l. var l = x) c \<noteq> [] \<longrightarrow> vs' = sign (last (filter (\<lambda>l. var l = x) c)))) \<and>
   model_converter_apply ledger_A model_A 3 = l_false \<and>
   model_converter_apply ledger_A model_A = model_A(3 := l_false)"
proof (intro conjI impI)
  assume h: "null_literal \<notin> set c \<and> replay_clauses x c False vs m = (False, vs', m')"
  then have u: "m' = m \<and>
      vs' = (if filter (\<lambda>l. var l = x) c = [] then vs else sign (last (filter (\<lambda>l. var l = x) c)))"
    using replay_unsat_scan [of c x vs m vs' m'] by simp
  show "replay_clauses x (c @ null_literal # rest) False vs m =
        (False, vs', m(x := (if vs' then l_false else l_true)))"
    using h u by (simp add: replay_append)
  assume "filter (\<lambda>l. var l = x) c \<noteq> []"
  then show "vs' = sign (last (filter (\<lambda>l. var l = x) c))" using u by simp
next
  show "model_converter_apply ledger_A model_A 3 = l_false"
    by (simp add: ledger_A_def model_A_def model_converter_apply_def apply_entry_def value_at_def)
  show "model_converter_apply ledger_A model_A = model_A(3 := l_false)"
    by (simp add: ledger_A_def model_A_def model_converter_apply_def apply_entry_def value_at_def)
qed

theorem replay_unsat_clause_end_witness:
  "null_literal \<notin> set [Lit 1 False, Lit 3 True] \<and>
   replay_clauses 3 [Lit 1 False, Lit 3 True] False False model_A = (False, True, model_A) \<and>
   replay_clauses 3 ([Lit 1 False, Lit 3 True] @ null_literal # [Lit 3 False, null_literal])
      False False model_A = (False, True, model_A(3 := l_false)) \<and>
   sign (last (filter (\<lambda>l. var l = 3) [Lit 1 False, Lit 3 True])) = True"
  using replay_unsat_clause_end [of "[Lit 1 False, Lit 3 True]" 3 False model_A True model_A
      "[Lit 3 False, null_literal]"]
  by (simp add: model_A_def value_at_def)

subsection \<open>Which entry variables the replay defines\<close>

lemma value_true_defined: "value_at l m = l_true \<Longrightarrow> m (var l) \<noteq> l_undef"
  by (cases "m (var l)") (auto simp: value_at_def split: if_splits)

lemma replay_true_kept:
  assumes "var l \<noteq> x" and "value_at l m = l_true"
  shows "value_at l (snd (snd (replay_clauses x ls sat vs m))) = l_true"
proof -
  have "m (var l) \<noteq> l_undef" using assms(2) by (rule value_true_defined)
  then have "snd (snd (replay_clauses x ls sat vs m)) (var l) = m (var l)"
    using assms(1) by (simp add: replay_frame)
  then show ?thesis using assms(2) by (simp add: value_at_def)
qed

lemma other_true_kept:
  "other_true x m c \<Longrightarrow> other_true x (snd (snd (replay_clauses x ls sat vs m))) c"
  unfolding other_true_def using replay_true_kept by blast

lemma replay_own_undef:
  "snd (snd (replay_clauses x ls sat vs m)) x = l_undef \<Longrightarrow>
   (sat \<longrightarrow> other_true x m acc) \<Longrightarrow>
   \<forall>c \<in> set (clauses_from acc ls). other_true x (snd (snd (replay_clauses x ls sat vs m))) c"
proof (induction x ls sat vs m arbitrary: acc rule: replay_clauses.induct)
  case (1 x sat var_sign m)
  show ?case by simp
next
  case (2 x ls sat var_sign m)
  have s: "sat" using "2.prems"(1) by (auto split: if_splits)
  then have fin: "replay_clauses x (null_literal # ls) sat var_sign m =
      replay_clauses x ls False var_sign m" by simp
  have u: "snd (snd (replay_clauses x ls False var_sign m)) x = l_undef"
    using "2.prems"(1) fin by simp
  have a: "other_true x (snd (snd (replay_clauses x ls False var_sign m))) (rev acc)"
    using other_true_kept [of x m acc] s "2.prems"(2) by (simp add: other_true_def)
  have s': "\<not> \<not> sat" using s by simp
  have b: "\<forall>c \<in> set (clauses_from [] ls).
      other_true x (snd (snd (replay_clauses x ls False var_sign m))) c"
    by (rule "2.IH" [OF s' u]) simp
  show ?case unfolding fin using a b by simp
next
  case (3 x v s ls sat var_sign m)
  let ?vs = "if v = x then s else var_sign"
  show ?case
  proof (cases sat)
    case True
    have fin: "replay_clauses x (Lit v s # ls) sat var_sign m = replay_clauses x ls sat var_sign m"
      using True by simp
    have u: "snd (snd (replay_clauses x ls sat var_sign m)) x = l_undef"
      using "3.prems"(1) fin by simp
    have ot: "sat \<longrightarrow> other_true x m (Lit v s # acc)"
      using True "3.prems"(2) by (simp add: other_true_def)
    have "\<forall>c \<in> set (clauses_from (Lit v s # acc) ls).
        other_true x (snd (snd (replay_clauses x ls sat var_sign m))) c"
      by (rule "3.IH"(1) [OF True u ot])
    then show ?thesis unfolding fin by simp
  next
    case False
    show ?thesis
    proof (cases "value_at (Lit v s) m = l_true")
      case True
      have fin: "replay_clauses x (Lit v s # ls) sat var_sign m = replay_clauses x ls True ?vs m"
        using False True by (simp add: Let_def)
      have u: "snd (snd (replay_clauses x ls True ?vs m)) x = l_undef"
        using "3.prems"(1) fin by simp
      have "v \<noteq> x"
      proof
        assume "v = x"
        then have "m x \<noteq> l_undef" using value_true_defined [OF True] by simp
        then have "snd (snd (replay_clauses x ls True ?vs m)) x \<noteq> l_undef"
          by (rule replay_defined)
        then show False using u by simp
      qed
      then have ot: "True \<longrightarrow> other_true x m (Lit v s # acc)"
        using True by (auto simp: other_true_def)
      have "\<forall>c \<in> set (clauses_from (Lit v s # acc) ls).
          other_true x (snd (snd (replay_clauses x ls True ?vs m))) c"
        by (rule "3.IH"(2) [OF False refl True u ot])
      then show ?thesis unfolding fin by simp
    next
      case nt: False
      show ?thesis
      proof (cases "v \<noteq> x \<and> m v = l_undef")
        case True
        let ?m2 = "m(v := (if s then l_false else l_true))"
        have fin: "replay_clauses x (Lit v s # ls) sat var_sign m =
            replay_clauses x ls True ?vs ?m2"
          using False nt True by (simp add: Let_def)
        have u: "snd (snd (replay_clauses x ls True ?vs ?m2)) x = l_undef"
          using "3.prems"(1) fin by simp
        have "value_at (Lit v s) ?m2 = l_true" by (simp add: value_at_def)
        then have ot: "True \<longrightarrow> other_true x ?m2 (Lit v s # acc)"
          using True by (auto simp: other_true_def)
        have "\<forall>c \<in> set (clauses_from (Lit v s # acc) ls).
            other_true x (snd (snd (replay_clauses x ls True ?vs ?m2))) c"
          by (rule "3.IH"(3) [OF False refl nt True u ot])
        then show ?thesis unfolding fin by simp
      next
        case na: False
        have fin: "replay_clauses x (Lit v s # ls) sat var_sign m =
            replay_clauses x ls sat ?vs m"
          using False nt na by (auto simp: Let_def)
        have u: "snd (snd (replay_clauses x ls sat ?vs m)) x = l_undef"
          using "3.prems"(1) fin by simp
        have ot: "sat \<longrightarrow> other_true x m (Lit v s # acc)" using False by simp
        have "\<forall>c \<in> set (clauses_from (Lit v s # acc) ls).
            other_true x (snd (snd (replay_clauses x ls sat ?vs m))) c"
          by (rule "3.IH"(4) [OF False refl nt na u ot])
        then show ?thesis unfolding fin by simp
      qed
    qed
  qed
qed

lemma apply_entry_own_undef:
  "apply_entry e m (m_var e) = l_undef \<Longrightarrow>
   \<forall>c \<in> set (clauses_of (m_clauses e)). other_true (m_var e) (apply_entry e m) c"
  unfolding apply_entry_def clauses_of_def by (rule replay_own_undef) simp_all

subsection \<open>Replay followed by verification\<close>

lemma debug_clauses_check: "debug_clauses ls sat m = check_clauses ls sat True m"
  by (induction ls sat m rule: debug_clauses.induct) (auto simp: check_clauses_False)

lemma self_check_char:
  "self_check e m = (\<forall>c \<in> set (clauses_of (m_clauses e)). clause_true m c)"
  by (simp add: self_check_def debug_clauses_check check_entry_char)

lemma apply_debug_Inr:
  "apply_debug es m = Inr m' \<Longrightarrow> m' = model_converter_apply es m \<and> self_checks es m"
  by (induction es arbitrary: m')
    (auto simp: apply_Nil apply_Cons Let_def split: sum.splits if_splits)





subsection \<open>The invariant checker\<close>

lemma later_asserts_mem:
  "later_asserts n x es \<Longrightarrow> e2 \<in> set es \<Longrightarrow>
   m_var e2 \<noteq> x \<and> \<not> contains_var (m_clauses e2) x"
  by (induction es) (auto simp: contains_var_def lit_asserts_def list_all_iff)

lemma invariant_asserts_suffix:
  "invariant_asserts n (pre @ es) \<Longrightarrow> invariant_asserts n es"
  by (induction pre) simp_all

lemma invariant_asserts_violation:
  assumes "es = pre @ e # post" and "m_kind e = ELIM_VAR" and "e2 \<in> set post"
    and "m_var e2 = m_var e \<or> contains_var (m_clauses e2) (m_var e)"
  shows "\<not> invariant_asserts n es"
proof
  assume "invariant_asserts n es"
  then have "invariant_asserts n (pre @ e # post)" using assms(1) by simp
  then have "invariant_asserts n (e # post)" by (rule invariant_asserts_suffix)
  then have "later_asserts n (m_var e) post" using assms(2) by simp
  then have "m_var e2 \<noteq> m_var e \<and> \<not> contains_var (m_clauses e2) (m_var e)"
    using assms(3) by (rule later_asserts_mem)
  then show False using assms(4) by simp
qed

text \<open>
  Claim C3, as amended. \<open>check_invariant\<close> never returns false. A release build
  returns true on every ledger. A debug build fails an assertion, which is a fatal fault
  and not a return value, when an entry after an \<^verbatim>\<open>ELIM_VAR\<close> entry has the same
  variable or a literal over it; scenario C is such a ledger.
\<close>

theorem check_invariant_never_false:
  "check_invariant debug num_vars es \<noteq> Inr False \<and>
   check_invariant False num_vars es = Inr True \<and>
   (es = pre @ e # post \<and> m_kind e = ELIM_VAR \<and> e2 \<in> set post \<and>
    (m_var e2 = m_var e \<or> contains_var (m_clauses e2) (m_var e))
    \<longrightarrow> check_invariant True num_vars es = Inl Assertion_violation)"
proof (intro conjI impI)
  show "check_invariant debug num_vars es \<noteq> Inr False"
    by (simp add: check_invariant_def)
  show "check_invariant False num_vars es = Inr True"
    by (simp add: check_invariant_def)
next
  assume "es = pre @ e # post \<and> m_kind e = ELIM_VAR \<and> e2 \<in> set post \<and>
    (m_var e2 = m_var e \<or> contains_var (m_clauses e2) (m_var e))"
  then have "\<not> invariant_asserts num_vars es"
    using invariant_asserts_violation [of es pre e post e2 num_vars] by blast
  then show "check_invariant True num_vars es = Inl Assertion_violation"
    by (simp add: check_invariant_def)
qed

theorem check_invariant_never_false_witness:
  "ledger_C = [] @ hd ledger_C # tl ledger_C \<and> m_kind (hd ledger_C) = ELIM_VAR \<and>
   hd (tl ledger_C) \<in> set (tl ledger_C) \<and>
   contains_var (m_clauses (hd (tl ledger_C))) (m_var (hd ledger_C)) \<and>
   check_invariant True 6 ledger_C = Inl Assertion_violation \<and>
   check_invariant False 6 ledger_C = Inr True"
  using check_invariant_never_false [of True 6 ledger_C "[]" "hd ledger_C" "tl ledger_C"
      "hd (tl ledger_C)"]
  by (simp add: ledger_C_def contains_var_def)

text \<open>
  On the ledger of scenario C the release build returns true and the debug build stops
  at line 183. Two \<^verbatim>\<open>BLOCK_LIT\<close> entries that share a variable pass every
  assertion, so there even the debug build returns true.
\<close>

theorem check_invariant_counterexample:
  "check_invariant False 6 ledger_C = Inr True \<and>
   check_invariant True 6 ledger_C = Inl Assertion_violation \<and>
   check_invariant False 4 ledger_S = Inr True \<and>
   check_invariant True 4 ledger_S = Inr True"
  by (simp add: ledger_C_def ledger_S_def check_invariant_def lit_asserts_def)

subsection \<open>Attaching clauses\<close>

lemma fold_push_back:
  "fold (\<lambda>a e'. e'\<lparr>m_clauses := m_clauses e' @ [f a]\<rparr>) as e =
   e\<lparr>m_clauses := m_clauses e @ map f as\<rparr>"
  by (induction as arbitrary: e) simp_all

lemma insert_clause_eq:
  "insert_clause e c = e\<lparr>m_clauses := m_clauses e @ c @ [null_literal]\<rparr>"
  using fold_push_back [of "\<lambda>l. l" c e] by (simp add: insert_clause_def)

lemma insert_wrapper_eq:
  "insert_wrapper e c = e\<lparr>m_clauses := m_clauses e @ c @ [null_literal]\<rparr>"
  using fold_push_back [of "\<lambda>i. c ! i" "[0..<length c]" e]
  by (simp add: insert_wrapper_def map_nth)

lemma insert_binary_eq:
  "insert_binary e l1 l2 = e\<lparr>m_clauses := m_clauses e @ [l1, l2, null_literal]\<rparr>"
  by (simp add: insert_binary_def)

text \<open>
  Claim C8. For a valid entry position \<open>i\<close>, attaching a clause appends its literals in
  order and then the sentinel to the justification of entry \<open>i\<close>, keeps the kind and
  the variable of that entry, and leaves every other entry and the length of the ledger
  as they were; the overload for a clause wrapper does the same. Under its precondition
  (line 149) the binary overload appends \<open>l1\<close>, \<open>l2\<close> and the sentinel.
\<close>

theorem attach_appends:
  "(i < length es \<longrightarrow>
      m_clauses (attach_clause i c es ! i) = m_clauses (es ! i) @ c @ [null_literal] \<and>
      m_kind (attach_clause i c es ! i) = m_kind (es ! i) \<and>
      m_var (attach_clause i c es ! i) = m_var (es ! i) \<and>
      attach_wrapper i c es = attach_clause i c es \<and>
      length (attach_clause i c es) = length es \<and>
      (\<forall>j. j \<noteq> i \<longrightarrow> attach_clause i c es ! j = es ! j)) \<and>
   (i < length es \<and> (var l1 = m_var (es ! i) \<or> var l2 = m_var (es ! i)) \<longrightarrow>
      m_clauses (attach_binary i l1 l2 es ! i) = m_clauses (es ! i) @ [l1, l2, null_literal] \<and>
      m_kind (attach_binary i l1 l2 es ! i) = m_kind (es ! i) \<and>
      m_var (attach_binary i l1 l2 es ! i) = m_var (es ! i) \<and>
      length (attach_binary i l1 l2 es) = length es \<and>
      (\<forall>j. j \<noteq> i \<longrightarrow> attach_binary i l1 l2 es ! j = es ! j))"
  by (simp add: attach_clause_def attach_wrapper_def attach_binary_def
      insert_clause_eq insert_wrapper_eq insert_binary_eq)

theorem attach_appends_witness:
  "(0::nat) < length ledger_C \<and> var (Lit 5 True) = m_var (ledger_C ! 0) \<and>
   m_clauses (attach_clause 0 [Lit 5 True, Lit 2 False] ledger_C ! 0) =
     [Lit 5 False, Lit 1 False, null_literal, Lit 5 True, Lit 2 False, null_literal] \<and>
   m_clauses (attach_binary 0 (Lit 5 True) (Lit 2 False) ledger_C ! 0) =
     [Lit 5 False, Lit 1 False, null_literal, Lit 5 True, Lit 2 False, null_literal] \<and>
   attach_clause 0 [Lit 5 True, Lit 2 False] ledger_C ! 1 = ledger_C ! 1 \<and>
   attach_binary 0 (Lit 5 True) (Lit 2 False) ledger_C ! 1 = ledger_C ! 1"
  using attach_appends [of 0 ledger_C "[Lit 5 True, Lit 2 False]" "Lit 5 True" "Lit 2 False"]
  by (simp add: ledger_C_def)

subsection \<open>Copying a converter\<close>

text \<open>
  Claim C10. Copying a converter onto itself, by \<open>copy\<close> or by the assignment operator,
  leaves it empty: \<open>reset\<close> runs before the source is read. For two distinct converters
  the destination gets the entries the source had and the source keeps them; converters
  other than the destination are untouched.
\<close>

theorem copy_self_empties:
  "copy a a h a = [] \<and> assign a a h a = [] \<and>
   (a \<noteq> b \<longrightarrow> copy a b h a = h b \<and> copy a b h b = h b \<and>
      assign a b h a = h b \<and> assign a b h b = h b) \<and>
   (c \<noteq> a \<longrightarrow> copy a b h c = h c)"
  by (simp add: copy_def assign_def reset_def append_entries_def)

theorem copy_self_empties_witness:
  "(0::nat) \<noteq> 1 \<and>
   copy 0 0 ((\<lambda>_. [])(0 := ledger_C, 1 := ledger_S)) 0 = [] \<and>
   copy 0 1 ((\<lambda>_. [])(0 := ledger_C, 1 := ledger_S)) 0 = ledger_S \<and>
   copy 0 1 ((\<lambda>_. [])(0 := ledger_C, 1 := ledger_S)) 1 = ledger_S"
  using copy_self_empties [of 0 "(\<lambda>_. [])(0 := ledger_C, 1 := ledger_S)" 1 1]
    copy_self_empties [of 0 "(\<lambda>_. [])(0 := ledger_C, 1 := ledger_S)" 0 1]
  by simp

subsection \<open>The outcome of the scan of one entry\<close>

lemma value_not_true_false:
  "value_at l m \<noteq> l_true \<Longrightarrow> m (var l) \<noteq> l_undef \<Longrightarrow> value_at l m = l_false"
  by (cases "m (var l)") (auto simp: value_at_def split: if_splits)

lemma replay_true_kept_own:
  assumes "value_at l m = l_true"
    and "snd (snd (replay_clauses x ls sat vs m)) x = m x"
  shows "value_at l (snd (snd (replay_clauses x ls sat vs m))) = l_true"
proof (cases "var l = x")
  case True
  then show ?thesis using assms by (simp add: value_at_def)
next
  case False
  then show ?thesis using assms(1) by (rule replay_true_kept)
qed

lemma clause_true_kept:
  "clause_true m c \<Longrightarrow> snd (snd (replay_clauses x ls sat vs m)) x = m x \<Longrightarrow>
   clause_true (snd (snd (replay_clauses x ls sat vs m))) c"
  unfolding clause_true_def using replay_true_kept_own by blast

lemma scan_stopped_Cons: "scan_stopped x m' cs \<Longrightarrow> scan_stopped x m' (c # cs)"
  by (auto simp: scan_stopped_def)

lemma replay_outcome:
  "(sat \<longrightarrow> clause_true m acc) \<Longrightarrow>
   (\<not> sat \<longrightarrow> (\<forall>l \<in> set acc. var l \<noteq> x \<longrightarrow> value_at l m = l_false)) \<Longrightarrow>
   (\<not> sat \<longrightarrow> (\<exists>l \<in> set acc. var l = x) \<longrightarrow> Lit x vs \<in> set acc) \<Longrightarrow>
   scan_kept x m (snd (snd (replay_clauses x ls sat vs m))) (clauses_from acc ls) \<or>
   scan_stopped x (snd (snd (replay_clauses x ls sat vs m))) (clauses_from acc ls)"
proof (induction x ls sat vs m arbitrary: acc rule: replay_clauses.induct)
  case (1 x sat var_sign m)
  show ?case by (simp add: scan_kept_def)
next
  case (2 x ls sat var_sign m)
  show ?case
  proof (cases sat)
    case False
    let ?m' = "m(x := (if var_sign then l_false else l_true))"
    have fin: "replay_clauses x (null_literal # ls) sat var_sign m = (sat, var_sign, ?m')"
      using False by simp
    have oth: "\<forall>l \<in> set (rev acc). var l \<noteq> x \<longrightarrow> value_at l ?m' = l_false"
      using "2.prems"(2) False by (auto simp: value_at_def)
    have mx: "?m' x = (if var_sign then l_false else l_true)" by simp
    have own: "(\<exists>l \<in> set (rev acc). var l = x) \<longrightarrow>
        (\<exists>s. Lit x s \<in> set (rev acc) \<and> ?m' x = (if s then l_false else l_true))"
    proof
      assume "\<exists>l \<in> set (rev acc). var l = x"
      then have "Lit x var_sign \<in> set (rev acc)" using "2.prems"(3) False by simp
      then show "\<exists>s. Lit x s \<in> set (rev acc) \<and> ?m' x = (if s then l_false else l_true)"
        using mx by blast
    qed
    have "rev acc \<in> set (rev acc # clauses_from [] ls)" by simp
    then have "scan_stopped x ?m' (rev acc # clauses_from [] ls)"
      unfolding scan_stopped_def using oth own by blast
    then show ?thesis unfolding fin clauses_from.simps snd_conv by (rule disjI2)
  next
    case True
    let ?m' = "snd (snd (replay_clauses x ls False var_sign m))"
    have fin: "replay_clauses x (null_literal # ls) sat var_sign m =
        replay_clauses x ls False var_sign m"
      using True by simp
    have s': "\<not> \<not> sat" using True by simp
    have ih: "scan_kept x m ?m' (clauses_from [] ls) \<or> scan_stopped x ?m' (clauses_from [] ls)"
      by (rule "2.IH" [OF s']) (simp_all add: clause_true_def)
    show ?thesis
    proof (rule disjE [OF ih])
      assume k: "scan_kept x m ?m' (clauses_from [] ls)"
      then have same: "?m' x = m x" by (simp add: scan_kept_def)
      have "clause_true m (rev acc)"
        using "2.prems"(1) True by (simp add: clause_true_def)
      then have "clause_true ?m' (rev acc)" using same by (rule clause_true_kept)
      then have "scan_kept x m ?m' (rev acc # clauses_from [] ls)"
        using k by (simp add: scan_kept_def)
      then show ?thesis unfolding fin clauses_from.simps by (rule disjI1)
    next
      assume "scan_stopped x ?m' (clauses_from [] ls)"
      then have "scan_stopped x ?m' (rev acc # clauses_from [] ls)"
        by (rule scan_stopped_Cons)
      then show ?thesis unfolding fin clauses_from.simps by (rule disjI2)
    qed
  qed
next
  case (3 x v s ls sat var_sign m)
  let ?vs = "if v = x then s else var_sign"
  let ?acc = "Lit v s # acc"
  show ?case
  proof (cases sat)
    case True
    have fin: "replay_clauses x (Lit v s # ls) sat var_sign m = replay_clauses x ls sat var_sign m"
      using True by simp
    have a1: "sat \<longrightarrow> clause_true m ?acc"
      using "3.prems"(1) by (simp add: clause_true_def)
    have a2: "\<not> sat \<longrightarrow> (\<forall>l \<in> set ?acc. var l \<noteq> x \<longrightarrow> value_at l m = l_false)"
      using True by simp
    have a3: "\<not> sat \<longrightarrow> (\<exists>l \<in> set ?acc. var l = x) \<longrightarrow> Lit x var_sign \<in> set ?acc"
      using True by simp
    show ?thesis unfolding fin clauses_from.simps by (rule "3.IH"(1) [OF True a1 a2 a3])
  next
    case False
    show ?thesis
    proof (cases "value_at (Lit v s) m = l_true")
      case True
      have fin: "replay_clauses x (Lit v s # ls) sat var_sign m = replay_clauses x ls True ?vs m"
        using False True by (simp add: Let_def)
      have a1: "True \<longrightarrow> clause_true m ?acc"
        using True by (auto simp: clause_true_def)
      have a2: "\<not> True \<longrightarrow> (\<forall>l \<in> set ?acc. var l \<noteq> x \<longrightarrow> value_at l m = l_false)"
        by simp
      have a3: "\<not> True \<longrightarrow> (\<exists>l \<in> set ?acc. var l = x) \<longrightarrow> Lit x ?vs \<in> set ?acc"
        by simp
      show ?thesis unfolding fin clauses_from.simps
        by (rule "3.IH"(2) [OF False refl True a1 a2 a3])
    next
      case nt: False
      show ?thesis
      proof (cases "v \<noteq> x \<and> m v = l_undef")
        case True
        let ?m2 = "m(v := (if s then l_false else l_true))"
        let ?m' = "snd (snd (replay_clauses x ls True ?vs ?m2))"
        have fin: "replay_clauses x (Lit v s # ls) sat var_sign m =
            replay_clauses x ls True ?vs ?m2"
          using False nt True by (simp add: Let_def)
        have "value_at (Lit v s) ?m2 = l_true" by (simp add: value_at_def)
        then have a1: "True \<longrightarrow> clause_true ?m2 ?acc"
          by (auto simp: clause_true_def)
        have a2: "\<not> True \<longrightarrow> (\<forall>l \<in> set ?acc. var l \<noteq> x \<longrightarrow> value_at l ?m2 = l_false)"
          by simp
        have a3: "\<not> True \<longrightarrow> (\<exists>l \<in> set ?acc. var l = x) \<longrightarrow> Lit x ?vs \<in> set ?acc"
          by simp
        have ih: "scan_kept x ?m2 ?m' (clauses_from ?acc ls) \<or>
            scan_stopped x ?m' (clauses_from ?acc ls)"
          by (rule "3.IH"(3) [OF False refl nt True a1 a2 a3])
        have "?m2 x = m x" using True by simp
        then have "scan_kept x m ?m' (clauses_from ?acc ls) \<or>
            scan_stopped x ?m' (clauses_from ?acc ls)"
          using ih by (simp add: scan_kept_def)
        then show ?thesis unfolding fin clauses_from.simps .
      next
        case na: False
        have fin: "replay_clauses x (Lit v s # ls) sat var_sign m =
            replay_clauses x ls sat ?vs m"
          using False nt na by (auto simp: Let_def)
        have a1: "sat \<longrightarrow> clause_true m ?acc" using False by simp
        have new: "v \<noteq> x \<longrightarrow> value_at (Lit v s) m = l_false"
          using nt na value_not_true_false [of "Lit v s" m] by auto
        have a2: "\<not> sat \<longrightarrow> (\<forall>l \<in> set ?acc. var l \<noteq> x \<longrightarrow> value_at l m = l_false)"
          using "3.prems"(2) new by simp
        have a3: "\<not> sat \<longrightarrow> (\<exists>l \<in> set ?acc. var l = x) \<longrightarrow> Lit x ?vs \<in> set ?acc"
          using "3.prems"(3) by auto
        show ?thesis unfolding fin clauses_from.simps
          by (rule "3.IH"(4) [OF False refl nt na a1 a2 a3])
      qed
    qed
  qed
qed

lemma apply_entry_outcome:
  "scan_kept (m_var e) m (apply_entry e m) (clauses_of (m_clauses e)) \<or>
   scan_stopped (m_var e) (apply_entry e m) (clauses_of (m_clauses e))"
  unfolding apply_entry_def clauses_of_def by (rule replay_outcome) simp_all

lemma scan_stopped_not_other:
  "scan_stopped x m' cs \<Longrightarrow> \<exists>c \<in> set cs. \<not> other_true x m' c"
  unfolding scan_stopped_def other_true_def by fastforce

lemma apply_entry_own_unassigned:
  assumes "\<forall>c \<in> set (clauses_of (m_clauses e)). other_true (m_var e) (apply_entry e m) c"
  shows "apply_entry e m (m_var e) = m (m_var e)"
proof -
  have "\<not> scan_stopped (m_var e) (apply_entry e m) (clauses_of (m_clauses e))"
    using assms scan_stopped_not_other by blast
  then have "scan_kept (m_var e) m (apply_entry e m) (clauses_of (m_clauses e))"
    using apply_entry_outcome [of e m] by simp
  then show ?thesis by (simp add: scan_kept_def)
qed

lemma replay_untouched:
  "v \<noteq> x \<Longrightarrow> \<not> contains_var ls v \<Longrightarrow> snd (snd (replay_clauses x ls sat vs m)) v = m v"
  by (induction x ls sat vs m rule: replay_clauses.induct)
    (auto simp: Let_def contains_var_def)

lemma apply_untouched:
  "\<forall>e \<in> set es. m_var e \<noteq> v \<and> \<not> contains_var (m_clauses e) v \<Longrightarrow>
   model_converter_apply es m v = m v"
proof (induction es)
  case Nil
  show ?case by (simp add: apply_Nil)
next
  case (Cons e es)
  have "apply_entry e (model_converter_apply es m) v = model_converter_apply es m v"
    unfolding apply_entry_def using Cons.prems by (intro replay_untouched) auto
  then show ?case using Cons by (simp add: apply_Cons)
qed




subsection \<open>Replay followed by verification: the result\<close>




subsection \<open>Which entry variables the replay defines: the result\<close>

text \<open>
  Claim C2, as amended, in four parts. The replay never turns a defined value into the
  undefined one. The variable of an entry \<open>e\<close> is defined after the replay when it was
  defined at the moment \<open>e\<close> was replayed (that is, after the entries \<open>post\<close> behind it),
  or when, right after the step for \<open>e\<close>, some clause of \<open>e\<close> has no true literal over
  another variable. Conversely, when right after the step every clause of \<open>e\<close> has a true
  literal over another variable, the step has not assigned the variable of \<open>e\<close>: it has
  the value it had before the step. If that value was the undefined one and no entry
  before \<open>e\<close> in the ledger (these are replayed after \<open>e\<close>) has the variable or
  mentions it, the variable is undefined when the replay returns.
\<close>

theorem apply_defines_entry_var:
  "(m v \<noteq> l_undef \<longrightarrow> model_converter_apply es m v \<noteq> l_undef) \<and>
   (es = pre @ e # post \<and>
    (model_converter_apply post m (m_var e) \<noteq> l_undef \<or>
     (\<exists>c \<in> set (clauses_of (m_clauses e)).
        \<not> other_true (m_var e) (apply_entry e (model_converter_apply post m)) c))
    \<longrightarrow> model_converter_apply es m (m_var e) \<noteq> l_undef) \<and>
   ((\<forall>c \<in> set (clauses_of (m_clauses e)). other_true (m_var e) (apply_entry e m) c)
    \<longrightarrow> apply_entry e m (m_var e) = m (m_var e)) \<and>
   (es = pre @ e # post \<and> model_converter_apply post m (m_var e) = l_undef \<and>
    (\<forall>c \<in> set (clauses_of (m_clauses e)).
        other_true (m_var e) (apply_entry e (model_converter_apply post m)) c) \<and>
    (\<forall>e' \<in> set pre. m_var e' \<noteq> m_var e \<and> \<not> contains_var (m_clauses e') (m_var e))
    \<longrightarrow> model_converter_apply es m (m_var e) = l_undef)"
proof (intro conjI impI)
  assume "m v \<noteq> l_undef"
  then show "model_converter_apply es m v \<noteq> l_undef" by (rule apply_defined)
next
  let ?m1 = "model_converter_apply post m"
  assume h: "es = pre @ e # post \<and>
    (?m1 (m_var e) \<noteq> l_undef \<or>
     (\<exists>c \<in> set (clauses_of (m_clauses e)). \<not> other_true (m_var e) (apply_entry e ?m1) c))"
  have step: "apply_entry e ?m1 (m_var e) \<noteq> l_undef"
    using h apply_entry_defined [of ?m1 "m_var e" e] apply_entry_own_undef [of e ?m1] by blast
  have "model_converter_apply es m = model_converter_apply pre (apply_entry e ?m1)"
    using h by (simp add: apply_append apply_Cons)
  then show "model_converter_apply es m (m_var e) \<noteq> l_undef"
    using step by (simp add: apply_defined)
next
  assume "\<forall>c \<in> set (clauses_of (m_clauses e)). other_true (m_var e) (apply_entry e m) c"
  then show "apply_entry e m (m_var e) = m (m_var e)" by (rule apply_entry_own_unassigned)
next
  let ?m1 = "model_converter_apply post m"
  assume h: "es = pre @ e # post \<and> ?m1 (m_var e) = l_undef \<and>
    (\<forall>c \<in> set (clauses_of (m_clauses e)). other_true (m_var e) (apply_entry e ?m1) c) \<and>
    (\<forall>e' \<in> set pre. m_var e' \<noteq> m_var e \<and> \<not> contains_var (m_clauses e') (m_var e))"
  have step: "apply_entry e ?m1 (m_var e) = l_undef"
    using h apply_entry_own_unassigned [of e ?m1] by simp
  have "model_converter_apply es m = model_converter_apply pre (apply_entry e ?m1)"
    using h by (simp add: apply_append apply_Cons)
  moreover have "model_converter_apply pre (apply_entry e ?m1) (m_var e) =
      apply_entry e ?m1 (m_var e)"
    using h by (intro apply_untouched) simp
  ultimately show "model_converter_apply es m (m_var e) = l_undef" using step by simp
qed

theorem apply_defines_entry_var_witness:
  "model_A 1 \<noteq> l_undef \<and> model_converter_apply ledger_A model_A 1 \<noteq> l_undef \<and>
   ledger_A = [] @ hd ledger_A # [] \<and>
   (\<exists>c \<in> set (clauses_of (m_clauses (hd ledger_A))).
      \<not> other_true (m_var (hd ledger_A))
        (apply_entry (hd ledger_A) (model_converter_apply [] model_A)) c) \<and>
   model_converter_apply ledger_A model_A (m_var (hd ledger_A)) \<noteq> l_undef \<and>
   model_converter_apply [] model_B (m_var (hd ledger_A)) = l_undef \<and>
   list_all (other_true (m_var (hd ledger_A)) (apply_entry (hd ledger_A) model_B))
     (clauses_of (m_clauses (hd ledger_A))) \<and>
   apply_entry (hd ledger_A) model_B (m_var (hd ledger_A)) = model_B (m_var (hd ledger_A)) \<and>
   model_converter_apply ledger_A model_B (m_var (hd ledger_A)) = l_undef"
  using apply_defines_entry_var [of model_A 1 ledger_A "[]" "hd ledger_A" "[]"]
    apply_defines_entry_var [of model_B 1 ledger_A "[]" "hd ledger_A" "[]"]
  by (simp add: ledger_A_def model_A_def model_B_def model_converter_apply_def apply_entry_def
      value_at_def clauses_of_def other_true_def)

text \<open>
  Scenario B refutes totality: every variable but the entry's is assigned, the only
  clause is satisfied through variable 1, and variable 3 is still undefined afterwards.
\<close>

theorem apply_totality_counterexample:
  "(\<forall>v. v \<in> m_var ` set ledger_A \<or> model_B v \<noteq> l_undef) \<and>
   3 \<in> m_var ` set ledger_A \<and>
   model_converter_apply ledger_A model_B 3 = l_undef"
  by (simp add: ledger_A_def model_B_def model_converter_apply_def apply_entry_def value_at_def)

subsection \<open>Replay on a model that already satisfies the ledger: the result\<close>

text \<open>
  Claim C6. The claim is about a model that is already total: by the contract of the
  replay (section 4.2 of the specification) every variable that no entry owns is
  assigned. If moreover every variable owned by an entry is defined and every clause of
  every entry is satisfied, the replay returns the model unchanged.
\<close>

theorem apply_noop_on_total_model:
  "(\<forall>e \<in> set es. m (m_var e) \<noteq> l_undef) \<Longrightarrow>
   (\<forall>v. v \<notin> m_var ` set es \<longrightarrow> m v \<noteq> l_undef) \<Longrightarrow>
   check_model es m \<Longrightarrow> model_converter_apply es m = m"
proof -
  assume a: "\<forall>e \<in> set es. m (m_var e) \<noteq> l_undef"
    and b: "\<forall>v. v \<notin> m_var ` set es \<longrightarrow> m v \<noteq> l_undef"
    and c: "check_model es m"
  have "\<forall>v. m v \<noteq> l_undef"
  proof
    fix v show "m v \<noteq> l_undef"
    proof (cases "v \<in> m_var ` set es")
      case True
      then obtain e where "e \<in> set es" "v = m_var e" by auto
      then show ?thesis using a by simp
    next
      case False
      then show ?thesis using b by simp
    qed
  qed
  then have "\<forall>e \<in> set es. \<forall>l \<in> set (m_clauses e). l \<noteq> null_literal \<longrightarrow> m (var l) \<noteq> l_undef"
    by simp
  then show ?thesis using c by (rule apply_noop)
qed

theorem apply_noop_on_total_model_witness:
  "model_N (m_var (hd ledger_N)) \<noteq> l_undef \<and> model_N 1 \<noteq> l_undef \<and>
   check_model ledger_N model_N \<and>
   model_converter_apply ledger_N model_N = model_N"
  using apply_noop_on_total_model [of ledger_N model_N]
  by (simp add: ledger_N_def model_N_def check_model_def value_at_def)

end
